theory Spec2Isabelle
  imports Main "HOL-Library.Multiset"
begin

section \<open>The container of \<^verbatim>\<open>concurrent_hash_map.h\<close>\<close>

text \<open>
  The class \<^verbatim>\<open>ConcurrentHashMap<K, V, Hash>\<close> is embedded as it runs when one thread
  calls it: every public method takes its stripe lock (or all of them) on entry and gives
  it back on exit, so in a single thread the locks have no effect on the result and the
  fields \<^verbatim>\<open>mutexes_\<close> and \<^verbatim>\<open>rehash_mutex_\<close> are left out of the state.

  \<^item> \<^verbatim>\<open>data_\<close>, a \<^verbatim>\<open>std::vector<std::list<std::pair<K, V>>>\<close>, is a list of lists of pairs.
  \<^item> \<^verbatim>\<open>size_\<close> and \<^verbatim>\<open>capacity_\<close> are \<^verbatim>\<open>std::atomic<size_t>\<close>: naturals below \<open>2 ^ 64\<close>, with
    the wrap-around of \<^verbatim>\<open>++size_\<close>, \<^verbatim>\<open>--size_\<close> and \<^verbatim>\<open>capacity_ << 2\<close> written out.
  \<^item> \<^verbatim>\<open>mutexes_count_\<close> is a \<^verbatim>\<open>const\<close> member that the only constructor sets to
    \<^verbatim>\<open>kMutexesCount\<close>; the constant stands for it.
  \<^item> \<^verbatim>\<open>hasher_\<close> is a parameter \<open>hasher\<close> of every operation that hashes; only its
    remainders are ever used.
  \<^item> \<^verbatim>\<open>V{}\<close>, the value-initialised \<^verbatim>\<open>V\<close> that \<^verbatim>\<open>Find\<close> returns for a missing key, is a
    parameter \<open>dflt\<close>.
  \<^item> A list iterator is the position it points at; \<^verbatim>\<open>end()\<close> is the length of the list.
  \<^item> \<^verbatim>\<open>data_[i]\<close> with \<open>i\<close> past the end of the vector and \<^verbatim>\<open>% capacity_\<close> with capacity 0 are
    undefined in C++. Neither occurs in a state that satisfies the invariant \<open>hm_inv\<close> below
    (the capacity is positive and is the length of \<^verbatim>\<open>data_\<close>), and every state that calls
    on a new container lead to satisfies it (\<open>run_fresh_inv\<close>).
\<close>

definition kMutexesCount :: nat where
  "kMutexesCount = 63"

record ('k, 'v) hashmap =
  data_m :: "('k \<times> 'v) list list"
  size_m :: nat
  capacity_m :: nat

text \<open>The constructor (all three overloads end in the same member initialisers).\<close>

definition ConcurrentHashMap :: "('k, 'v) hashmap" where
  "ConcurrentHashMap =
     \<lparr>data_m = replicate kMutexesCount [], size_m = 0, capacity_m = kMutexesCount\<rparr>"

text \<open>
  The test \<^verbatim>\<open>static_cast<double>(capacity_.load()) * kLoadFactor <=
  static_cast<double>(size_.load())\<close> with \<^verbatim>\<open>kLoadFactor = 0.9\<close>. It is written here in exact
  arithmetic, \<open>9 * capacity \<le> 10 * size\<close>. The two agree while the size is below \<open>2 ^ 48\<close>:
  both integers convert to \<^verbatim>\<open>double\<close> exactly, \<open>0.9 * capacity\<close> is either an integer or at
  least \<open>0.1\<close> away from one, and the rounding of the product is far smaller than that.
\<close>

definition load_check :: "('k, 'v) hashmap \<Rightarrow> bool" where
  "load_check s \<longleftrightarrow> capacity_m s * 9 \<le> size_m s * 10"

text \<open>The loop of \<^verbatim>\<open>FindInList\<close> over one chain: the position of the first entry with the
  key, or the length of the chain (\<^verbatim>\<open>end()\<close>) when there is none.\<close>

primrec FindInList_loop :: "'k \<Rightarrow> ('k \<times> 'v) list \<Rightarrow> nat" where
  "FindInList_loop key [] = 0"
| "FindInList_loop key (e # es) = (if fst e = key then 0 else Suc (FindInList_loop key es))"

definition FindInList :: "nat \<Rightarrow> 'k \<Rightarrow> ('k, 'v) hashmap \<Rightarrow> nat" where
  "FindInList idx key s = FindInList_loop key (data_m s ! idx)"

text \<open>The body of the inner loop of \<^verbatim>\<open>Rehash\<close>: \<^verbatim>\<open>new_data[id].push_back(i)\<close> with
  \<^verbatim>\<open>id = hasher_(i.first) % capacity_\<close>.\<close>

definition Rehash_push ::
  "('k \<Rightarrow> nat) \<Rightarrow> nat \<Rightarrow> ('k \<times> 'v) list list \<Rightarrow> 'k \<times> 'v \<Rightarrow> ('k \<times> 'v) list list" where
  "Rehash_push hasher cap new_data i =
     (let idx = hasher (fst i) mod cap in new_data[idx := new_data ! idx @ [i]])"

definition Rehash :: "('k \<Rightarrow> nat) \<Rightarrow> ('k, 'v) hashmap \<Rightarrow> ('k, 'v) hashmap" where
  "Rehash hasher s =
     (let cap = (capacity_m s * 4) mod 2 ^ 64;
          new_data = foldl (\<lambda>nd lst. foldl (Rehash_push hasher cap) nd lst)
                       (replicate cap []) (data_m s)
      in s\<lparr>capacity_m := cap, data_m := new_data\<rparr>)"

definition Insert ::
  "('k \<Rightarrow> nat) \<Rightarrow> 'k \<Rightarrow> 'v \<Rightarrow> ('k, 'v) hashmap \<Rightarrow> bool \<times> ('k, 'v) hashmap" where
  "Insert hasher key val s =
     (let s1 = (if load_check s then (if load_check s then Rehash hasher s else s) else s);
          data_id = hasher key mod capacity_m s1;
          it = FindInList data_id key s1
      in if it \<noteq> length (data_m s1 ! data_id) then (False, s1)
         else (True, s1\<lparr>data_m := (data_m s1)[data_id := data_m s1 ! data_id @ [(key, val)]],
                        size_m := (size_m s1 + 1) mod 2 ^ 64\<rparr>))"

definition Erase :: "('k \<Rightarrow> nat) \<Rightarrow> 'k \<Rightarrow> ('k, 'v) hashmap \<Rightarrow> bool \<times> ('k, 'v) hashmap" where
  "Erase hasher key s =
     (let data_id = hasher key mod capacity_m s;
          it = FindInList data_id key s
      in if it \<noteq> length (data_m s ! data_id)
         then (True, s\<lparr>data_m := (data_m s)[data_id :=
                                    take it (data_m s ! data_id) @ drop (Suc it) (data_m s ! data_id)],
                       size_m := (size_m s + 2 ^ 64 - 1) mod 2 ^ 64\<rparr>)
         else (False, s))"

definition Clear :: "('k, 'v) hashmap \<Rightarrow> ('k, 'v) hashmap" where
  "Clear s = s\<lparr>data_m := replicate kMutexesCount [], size_m := 0, capacity_m := kMutexesCount\<rparr>"

definition Find :: "('k \<Rightarrow> nat) \<Rightarrow> 'v \<Rightarrow> 'k \<Rightarrow> ('k, 'v) hashmap \<Rightarrow> bool \<times> 'v" where
  "Find hasher dflt key s =
     (let data_id = hasher key mod capacity_m s;
          it = FindInList data_id key s
      in if it \<noteq> length (data_m s ! data_id) then (True, snd (data_m s ! data_id ! it))
         else (False, dflt))"

datatype error = out_of_range

definition At :: "('k \<Rightarrow> nat) \<Rightarrow> 'k \<Rightarrow> ('k, 'v) hashmap \<Rightarrow> error + 'v" where
  "At hasher key s =
     (let data_id = hasher key mod capacity_m s;
          it = FindInList data_id key s
      in if it \<noteq> length (data_m s ! data_id) then Inr (snd (data_m s ! data_id ! it))
         else Inl out_of_range)"

definition Size :: "('k, 'v) hashmap \<Rightarrow> nat" where
  "Size s = size_m s"


section \<open>Sequences of calls\<close>

text \<open>A call of one public method, what it returns, and the effect of a sequence of calls
  made one after the other. \<^verbatim>\<open>Find\<close>, \<^verbatim>\<open>At\<close> and \<^verbatim>\<open>Size\<close> are \<^verbatim>\<open>const\<close> methods: they
  return a result and leave the container as it is.\<close>

datatype ('k, 'v) call = CallInsert 'k 'v | CallErase 'k | CallClear | CallFind 'k | CallAt 'k | CallSize

datatype 'v outcome = RetBool bool | RetFind "bool \<times> 'v" | RetAt "error + 'v" | RetSize nat | RetVoid

fun exec ::
  "('k \<Rightarrow> nat) \<Rightarrow> 'v \<Rightarrow> ('k, 'v) call \<Rightarrow> ('k, 'v) hashmap \<Rightarrow> 'v outcome \<times> ('k, 'v) hashmap" where
  "exec hasher dflt (CallInsert key val) s =
     (RetBool (fst (Insert hasher key val s)), snd (Insert hasher key val s))"
| "exec hasher dflt (CallErase key) s =
     (RetBool (fst (Erase hasher key s)), snd (Erase hasher key s))"
| "exec hasher dflt CallClear s = (RetVoid, Clear s)"
| "exec hasher dflt (CallFind key) s = (RetFind (Find hasher dflt key s), s)"
| "exec hasher dflt (CallAt key) s = (RetAt (At hasher key s), s)"
| "exec hasher dflt CallSize s = (RetSize (Size s), s)"

fun run ::
  "('k \<Rightarrow> nat) \<Rightarrow> 'v \<Rightarrow> ('k, 'v) call list \<Rightarrow> ('k, 'v) hashmap \<Rightarrow> ('k, 'v) hashmap" where
  "run hasher dflt [] s = s"
| "run hasher dflt (c # cs) s = run hasher dflt cs (snd (exec hasher dflt c s))"

fun outcomes ::
  "('k \<Rightarrow> nat) \<Rightarrow> 'v \<Rightarrow> ('k, 'v) call list \<Rightarrow> ('k, 'v) hashmap \<Rightarrow> 'v outcome list" where
  "outcomes hasher dflt [] s = []"
| "outcomes hasher dflt (c # cs) s =
     fst (exec hasher dflt c s) # outcomes hasher dflt cs (snd (exec hasher dflt c s))"

section \<open>Entries and the representation invariant\<close>

definition entries :: "('k, 'v) hashmap \<Rightarrow> ('k \<times> 'v) list" where
  "entries s = concat (data_m s)"

definition keys_of :: "('k, 'v) hashmap \<Rightarrow> 'k set" where
  "keys_of s = fst ` set (entries s)"

definition placed :: "('k \<Rightarrow> nat) \<Rightarrow> nat \<Rightarrow> ('k \<times> 'v) list list \<Rightarrow> bool" where
  "placed hasher cap xss \<longleftrightarrow> (\<forall>i < length xss. \<forall>e \<in> set (xss ! i). hasher (fst e) mod cap = i)"

text \<open>What holds of the fields between two calls: the counters are \<^verbatim>\<open>size_t\<close> values, the
  capacity is a positive multiple of the stripe count and the length of the storage array,
  the counter counts the entries, no key occurs twice, and every entry sits in the bucket
  its hash selects.\<close>

definition hm_inv :: "('k \<Rightarrow> nat) \<Rightarrow> ('k, 'v) hashmap \<Rightarrow> bool" where
  "hm_inv hasher s \<longleftrightarrow>
     0 < capacity_m s \<and> capacity_m s < 2 ^ 64 \<and> size_m s < 2 ^ 64 \<and>
     kMutexesCount dvd capacity_m s \<and>
     length (data_m s) = capacity_m s \<and>
     size_m s = length (entries s) \<and>
     distinct (map fst (entries s)) \<and>
     placed hasher (capacity_m s) (data_m s)"

text \<open>The state in which \<^verbatim>\<open>Insert\<close> takes its stripe lock: the one left by its growth
  check.\<close>

definition after_check :: "('k \<Rightarrow> nat) \<Rightarrow> ('k, 'v) hashmap \<Rightarrow> ('k, 'v) hashmap" where
  "after_check hasher s = (if load_check s then Rehash hasher s else s)"

text \<open>Counting, in a sequence of calls and their outcomes, the calls of one kind that
  returned \<^verbatim>\<open>true\<close>.\<close>

fun is_insert :: "('k, 'v) call \<Rightarrow> bool" where
  "is_insert (CallInsert key val) = True"
| "is_insert c = False"

fun is_erase :: "('k, 'v) call \<Rightarrow> bool" where
  "is_erase (CallErase key) = True"
| "is_erase c = False"

definition successes ::
  "(('k, 'v) call \<Rightarrow> bool) \<Rightarrow> ('k, 'v) call list \<Rightarrow> 'v outcome list \<Rightarrow> nat" where
  "successes kind cs rs = length (filter (\<lambda>(c, r). kind c \<and> r = RetBool True) (zip cs rs))"

text \<open>A container over natural numbers hashed by the identity, filled with the keys
  \<open>0, \<dots>, 56\<close>: the smallest load at which the growth check of \<^verbatim>\<open>Insert\<close> fires.\<close>

definition loaded :: "(nat, nat) hashmap" where
  "loaded = run id 0 (map (\<lambda>i. CallInsert i (i + 100)) [0..<57]) ConcurrentHashMap"

section \<open>The chain search\<close>

lemma FindInList_loop_le: "FindInList_loop key es \<le> length es"
  by (induction es) auto

lemma FindInList_loop_found: "FindInList_loop key es \<noteq> length es \<longleftrightarrow> key \<in> fst ` set es"
  using FindInList_loop_le [of key es]
  by (induction es) (auto simp: FindInList_loop_le)

lemma FindInList_loop_key:
  "FindInList_loop key es \<noteq> length es \<Longrightarrow> fst (es ! FindInList_loop key es) = key"
  by (induction es) (auto split: if_splits)

lemma FindInList_loop_before:
  "j < FindInList_loop key es \<Longrightarrow> fst (es ! j) \<noteq> key"
  by (induction es arbitrary: j) (auto split: if_splits simp: nth_Cons')

lemma FindInList_loop_lt:
  "FindInList_loop key es \<noteq> length es \<Longrightarrow> FindInList_loop key es < length es"
  using FindInList_loop_le [of key es] by simp

lemma FindInList_loop_split:
  assumes "FindInList_loop key es \<noteq> length es"
  shows "\<exists>v. es = take (FindInList_loop key es) es @ (key, v) # drop (Suc (FindInList_loop key es)) es"
    and "key \<notin> fst ` set (take (FindInList_loop key es) es)"
proof -
  let ?p = "FindInList_loop key es"
  have lt: "?p < length es" using assms by (rule FindInList_loop_lt)
  have "es ! ?p = (key, snd (es ! ?p))"
    using FindInList_loop_key [OF assms] by (metis prod.collapse)
  then have "es = take ?p es @ (key, snd (es ! ?p)) # drop (Suc ?p) es"
    using id_take_nth_drop [OF lt] by simp
  then show "\<exists>v. es = take ?p es @ (key, v) # drop (Suc ?p) es" ..
  show "key \<notin> fst ` set (take ?p es)"
  proof
    assume "key \<in> fst ` set (take ?p es)"
    then obtain j where "j < ?p" "fst (es ! j) = key"
      using lt by (auto simp: in_set_conv_nth)
    then show False using FindInList_loop_before [of j key es] by simp
  qed
qed

section \<open>Updating one bucket\<close>

lemma mset_concat_update:
  "i < length xss \<Longrightarrow>
     mset (concat (xss[i := ys])) + mset (xss ! i) = mset (concat xss) + mset ys"
  by (induction xss arbitrary: i) (auto simp: nth_Cons' split: nat.splits)

lemma mset_concat_push:
  "i < length xss \<Longrightarrow> mset (concat (xss[i := xss ! i @ [e]])) = add_mset e (mset (concat xss))"
  using mset_concat_update [of i xss "xss ! i @ [e]"] by simp

lemma set_concat_nth: "i < length xss \<Longrightarrow> e \<in> set (xss ! i) \<Longrightarrow> e \<in> set (concat xss)"
  by (auto intro: nth_mem)

lemma set_concat_bucket: "e \<in> set (concat xss) \<Longrightarrow> \<exists>i < length xss. e \<in> set (xss ! i)"
  by (auto simp: in_set_conv_nth [of _ xss])

section \<open>Redistribution\<close>

lemma foldl_nested: "foldl (\<lambda>nd lst. foldl f nd lst) nd xss = foldl f nd (concat xss)"
  by (induction xss arbitrary: nd) auto

lemma length_Rehash_push [simp]: "length (Rehash_push hasher cap nd e) = length nd"
  by (simp add: Rehash_push_def Let_def)

lemma length_foldl_Rehash_push [simp]:
  "length (foldl (Rehash_push hasher cap) nd es) = length nd"
  by (induction es arbitrary: nd) auto

lemma mset_Rehash_push:
  "0 < cap \<Longrightarrow> length nd = cap \<Longrightarrow>
     mset (concat (Rehash_push hasher cap nd e)) = add_mset e (mset (concat nd))"
  by (simp add: Rehash_push_def Let_def mset_concat_push)

lemma mset_foldl_Rehash_push:
  "0 < cap \<Longrightarrow> length nd = cap \<Longrightarrow>
     mset (concat (foldl (Rehash_push hasher cap) nd es)) = mset (concat nd) + mset es"
  by (induction es arbitrary: nd) (auto simp: mset_Rehash_push)

lemma placed_update:
  "placed hasher cap xss \<Longrightarrow> \<forall>e \<in> set ys. hasher (fst e) mod cap = i \<Longrightarrow>
     placed hasher cap (xss[i := ys])"
  unfolding placed_def
proof (intro allI impI ballI)
  fix j e
  assume inv: "\<forall>i<length xss. \<forall>e\<in>set (xss ! i). hasher (fst e) mod cap = i"
    and ys: "\<forall>e\<in>set ys. hasher (fst e) mod cap = i"
    and j: "j < length (xss[i := ys])" and e: "e \<in> set (xss[i := ys] ! j)"
  show "hasher (fst e) mod cap = j"
  proof (cases "j = i")
    case True
    with j e ys show ?thesis by simp
  next
    case False
    with j e inv show ?thesis by simp
  qed
qed

lemma placed_Rehash_push:
  "placed hasher cap nd \<Longrightarrow> length nd = cap \<Longrightarrow> 0 < cap \<Longrightarrow>
     placed hasher cap (Rehash_push hasher cap nd e)"
  unfolding Rehash_push_def Let_def
  by (rule placed_update) (auto simp: placed_def)

lemma placed_foldl_Rehash_push:
  "placed hasher cap nd \<Longrightarrow> length nd = cap \<Longrightarrow> 0 < cap \<Longrightarrow>
     placed hasher cap (foldl (Rehash_push hasher cap) nd es)"
  by (induction es arbitrary: nd) (auto simp: placed_Rehash_push)

lemma placed_replicate [simp]: "placed hasher cap (replicate n [])"
  by (simp add: placed_def)


section \<open>Consequences of the invariant\<close>

lemma mset_eq_facts:
  assumes "mset xs = mset ys"
  shows "length xs = length ys" and "set xs = set ys"
    and "distinct (map fst xs) = distinct (map fst ys)"
proof -
  show "length xs = length ys" using assms by (rule mset_eq_length)
  show "set xs = set ys" using assms by (rule mset_eq_setD)
  have "mset (map fst xs) = mset (map fst ys)" using assms by simp
  then show "distinct (map fst xs) = distinct (map fst ys)" by (rule mset_eq_imp_distinct_iff)
qed

lemma hm_inv_bucket_lt: "hm_inv hasher s \<Longrightarrow> hasher key mod capacity_m s < length (data_m s)"
  by (simp add: hm_inv_def)

lemma hm_inv_in_bucket:
  assumes "hm_inv hasher s" and "e \<in> set (entries s)"
  shows "e \<in> set (data_m s ! (hasher (fst e) mod capacity_m s))"
proof -
  from assms(2) obtain i where i: "i < length (data_m s)" "e \<in> set (data_m s ! i)"
    unfolding entries_def by (blast dest: set_concat_bucket)
  with assms(1) have "hasher (fst e) mod capacity_m s = i"
    by (simp add: hm_inv_def placed_def)
  with i show ?thesis by simp
qed

lemma hm_inv_bucket_entries:
  assumes "hm_inv hasher s" and "e \<in> set (data_m s ! (hasher key mod capacity_m s))"
  shows "e \<in> set (entries s)"
  unfolding entries_def using hm_inv_bucket_lt [OF assms(1)] assms(2) by (rule set_concat_nth)

lemma hm_inv_bucket_keys:
  assumes "hm_inv hasher s"
  shows "key \<in> fst ` set (data_m s ! (hasher key mod capacity_m s)) \<longleftrightarrow> key \<in> keys_of s"
proof
  assume "key \<in> fst ` set (data_m s ! (hasher key mod capacity_m s))"
  then show "key \<in> keys_of s"
    unfolding keys_of_def using hm_inv_bucket_entries [OF assms] by blast
next
  assume "key \<in> keys_of s"
  then obtain e where e: "e \<in> set (entries s)" "fst e = key" by (auto simp: keys_of_def)
  from hm_inv_in_bucket [OF assms e(1)] e(2) show "key \<in> fst ` set (data_m s ! (hasher key mod capacity_m s))"
    by (metis imageI)
qed

lemma hm_inv_FindInList:
  assumes "hm_inv hasher s"
  shows "FindInList (hasher key mod capacity_m s) key s
           \<noteq> length (data_m s ! (hasher key mod capacity_m s)) \<longleftrightarrow> key \<in> keys_of s"
  unfolding FindInList_def FindInList_loop_found by (rule hm_inv_bucket_keys [OF assms])

lemma hm_inv_value_unique:
  assumes "hm_inv hasher s" and "(key, v) \<in> set (entries s)" and "(key, w) \<in> set (entries s)"
  shows "v = w"
  using assms by (auto simp: hm_inv_def dest: eq_key_imp_eq_value)

lemma hm_inv_found_entry:
  assumes "hm_inv hasher s" and "key \<in> keys_of s"
  defines "b \<equiv> data_m s ! (hasher key mod capacity_m s)"
  shows "FindInList_loop key b < length b" and "fst (b ! FindInList_loop key b) = key"
    and "b ! FindInList_loop key b \<in> set (entries s)"
proof -
  have ne: "FindInList_loop key b \<noteq> length b"
    using hm_inv_FindInList [OF assms(1), of key] assms(2) by (simp add: FindInList_def b_def)
  then show lt: "FindInList_loop key b < length b" by (rule FindInList_loop_lt)
  from ne show "fst (b ! FindInList_loop key b) = key" by (rule FindInList_loop_key)
  from lt have "b ! FindInList_loop key b \<in> set b" by (rule nth_mem)
  then show "b ! FindInList_loop key b \<in> set (entries s)"
    unfolding b_def by (rule hm_inv_bucket_entries [OF assms(1)])
qed

lemma Find_present:
  assumes "hm_inv hasher s" and "(key, v) \<in> set (entries s)"
  shows "Find hasher dflt key s = (True, v)"
proof -
  let ?b = "data_m s ! (hasher key mod capacity_m s)"
  have k: "key \<in> keys_of s" using assms(2) by (force simp: keys_of_def)
  note f = hm_inv_found_entry [OF assms(1) k]
  have "(key, snd (?b ! FindInList_loop key ?b)) \<in> set (entries s)"
    using f(2,3) by (metis prod.collapse)
  then have "snd (?b ! FindInList_loop key ?b) = v"
    using assms by (blast intro: hm_inv_value_unique)
  then show ?thesis using f(1) by (simp add: Find_def FindInList_def Let_def)
qed

lemma Find_absent:
  assumes "hm_inv hasher s" and "key \<notin> keys_of s"
  shows "Find hasher dflt key s = (False, dflt)"
  using hm_inv_FindInList [OF assms(1), of key] assms(2) by (simp add: Find_def Let_def)

lemma At_present:
  assumes "hm_inv hasher s" and "(key, v) \<in> set (entries s)"
  shows "At hasher key s = Inr v"
proof -
  let ?b = "data_m s ! (hasher key mod capacity_m s)"
  have k: "key \<in> keys_of s" using assms(2) by (force simp: keys_of_def)
  note f = hm_inv_found_entry [OF assms(1) k]
  have "(key, snd (?b ! FindInList_loop key ?b)) \<in> set (entries s)"
    using f(2,3) by (metis prod.collapse)
  then have "snd (?b ! FindInList_loop key ?b) = v"
    using assms by (blast intro: hm_inv_value_unique)
  then show ?thesis using f(1) by (simp add: At_def FindInList_def Let_def)
qed

lemma At_absent:
  assumes "hm_inv hasher s" and "key \<notin> keys_of s"
  shows "At hasher key s = Inl out_of_range"
  using hm_inv_FindInList [OF assms(1), of key] assms(2) by (simp add: At_def Let_def)

section \<open>Growth\<close>

lemma Rehash_fields:
  assumes "capacity_m s * 4 < 2 ^ 64"
  shows "capacity_m (Rehash hasher s) = 4 * capacity_m s"
    and "size_m (Rehash hasher s) = size_m s"
    and "data_m (Rehash hasher s) =
           foldl (Rehash_push hasher (4 * capacity_m s)) (replicate (4 * capacity_m s) []) (entries s)"
  using assms by (simp_all add: Rehash_def Let_def foldl_nested entries_def mult.commute)

lemma Rehash_entries:
  assumes "0 < capacity_m s" and "capacity_m s * 4 < 2 ^ 64"
  shows "mset (entries (Rehash hasher s)) = mset (entries s)"
  using assms
  by (simp add: entries_def [of "Rehash hasher s"] Rehash_fields(3) mset_foldl_Rehash_push)

lemma hm_inv_Rehash:
  assumes "hm_inv hasher s" and "capacity_m s * 4 < 2 ^ 64"
  shows "hm_inv hasher (Rehash hasher s)"
proof -
  have pos: "0 < capacity_m s" using assms(1) by (simp add: hm_inv_def)
  note m = mset_eq_facts [OF Rehash_entries [OF pos assms(2), of hasher]]
  have "placed hasher (4 * capacity_m s) (data_m (Rehash hasher s))"
    unfolding Rehash_fields(3) [OF assms(2)]
    using pos by (intro placed_foldl_Rehash_push) simp_all
  then show ?thesis
    using assms m unfolding hm_inv_def
    by (simp add: Rehash_fields(1,2) Rehash_fields(3) [OF assms(2)])
qed


section \<open>Insert\<close>

lemma load_check_no_wrap:
  assumes "load_check s" and "size_m s < 2 ^ 48"
  shows "capacity_m s * 4 < 2 ^ 64"
  using assms unfolding load_check_def by simp

lemma after_check_facts:
  assumes "hm_inv hasher s" and "size_m s < 2 ^ 48"
  shows "hm_inv hasher (after_check hasher s)"
    and "mset (entries (after_check hasher s)) = mset (entries s)"
    and "size_m (after_check hasher s) = size_m s"
    and "capacity_m (after_check hasher s) = (if load_check s then 4 * capacity_m s else capacity_m s)"
proof -
  have pos: "0 < capacity_m s" using assms(1) by (simp add: hm_inv_def)
  have "hm_inv hasher (after_check hasher s) \<and>
        mset (entries (after_check hasher s)) = mset (entries s) \<and>
        size_m (after_check hasher s) = size_m s \<and>
        capacity_m (after_check hasher s) = (if load_check s then 4 * capacity_m s else capacity_m s)"
  proof (cases "load_check s")
    case True
    note nw = load_check_no_wrap [OF True assms(2)]
    show ?thesis
      using True hm_inv_Rehash [OF assms(1) nw] Rehash_entries [OF pos nw, of hasher]
        Rehash_fields(1,2) [OF nw, of hasher]
      by (simp add: after_check_def)
  next
    case False
    then show ?thesis using assms(1) by (simp add: after_check_def)
  qed
  then show "hm_inv hasher (after_check hasher s)"
    and "mset (entries (after_check hasher s)) = mset (entries s)"
    and "size_m (after_check hasher s) = size_m s"
    and "capacity_m (after_check hasher s) = (if load_check s then 4 * capacity_m s else capacity_m s)"
    by simp_all
qed

lemma after_check_keys:
  assumes "hm_inv hasher s" and "size_m s < 2 ^ 48"
  shows "keys_of (after_check hasher s) = keys_of s"
  using mset_eq_facts(2) [OF after_check_facts(2) [OF assms]] by (simp add: keys_of_def)

lemma Insert_unfold:
  "Insert hasher key val s =
     (let s1 = after_check hasher s;
          data_id = hasher key mod capacity_m s1
      in if FindInList data_id key s1 \<noteq> length (data_m s1 ! data_id) then (False, s1)
         else (True, s1\<lparr>data_m := (data_m s1)[data_id := data_m s1 ! data_id @ [(key, val)]],
                        size_m := (size_m s1 + 1) mod 2 ^ 64\<rparr>))"
  by (simp add: Insert_def after_check_def Let_def)

lemma Insert_present:
  assumes "hm_inv hasher s" and "size_m s < 2 ^ 48" and "key \<in> keys_of s"
  shows "Insert hasher key val s = (False, after_check hasher s)"
proof -
  have "key \<in> keys_of (after_check hasher s)"
    using assms by (simp add: after_check_keys)
  then show ?thesis
    using hm_inv_FindInList [OF after_check_facts(1) [OF assms(1,2)], of key]
    by (simp add: Insert_unfold Let_def)
qed

lemma Insert_absent:
  assumes "hm_inv hasher s" and "size_m s < 2 ^ 48" and "key \<notin> keys_of s"
  defines "s1 \<equiv> after_check hasher s"
  defines "data_id \<equiv> hasher key mod capacity_m s1"
  shows "Insert hasher key val s =
           (True, s1\<lparr>data_m := (data_m s1)[data_id := data_m s1 ! data_id @ [(key, val)]],
                     size_m := size_m s + 1\<rparr>)"
proof -
  have "key \<notin> keys_of s1"
    using assms by (simp add: after_check_keys)
  moreover have "size_m s1 = size_m s"
    unfolding s1_def by (rule after_check_facts(3) [OF assms(1,2)])
  moreover have "(size_m s + 1) mod 2 ^ 64 = size_m s + 1"
    using assms(2) by simp
  ultimately show ?thesis
    using hm_inv_FindInList [OF after_check_facts(1) [OF assms(1,2)], of key]
    by (simp add: Insert_unfold Let_def s1_def data_id_def)
qed

lemma hm_inv_push:
  fixes val :: 'v
  assumes "hm_inv hasher s" and "key \<notin> keys_of s" and "size_m s + 1 < 2 ^ 64"
  defines "data_id \<equiv> hasher key mod capacity_m s"
  defines "s' \<equiv> s\<lparr>data_m := (data_m s)[data_id := data_m s ! data_id @ [(key, val)]],
                   size_m := size_m s + 1\<rparr>"
  shows "hm_inv hasher s'" and "mset (entries s') = add_mset (key, val) (mset (entries s))"
proof -
  have lt: "data_id < length (data_m s)"
    unfolding data_id_def by (rule hm_inv_bucket_lt [OF assms(1)])
  show m: "mset (entries s') = add_mset (key, val) (mset (entries s))"
    using lt by (simp add: entries_def s'_def mset_concat_push)
  then have m': "mset (entries s') = mset ((key, val) # entries s)" by simp
  note f = mset_eq_facts [OF m']
  have pl: "placed hasher (capacity_m s) (data_m s)"
    using assms(1) by (simp add: hm_inv_def)
  have "\<forall>e\<in>set (data_m s ! data_id @ [(key, val)]). hasher (fst e) mod capacity_m s = data_id"
    using pl lt by (auto simp: placed_def data_id_def)
  with pl have "placed hasher (capacity_m s) ((data_m s)[data_id := data_m s ! data_id @ [(key, val)]])"
    by (rule placed_update)
  then have pl': "placed hasher (capacity_m s') (data_m s')" by (simp add: s'_def)
  have d: "distinct (map fst (entries s'))"
    using f(3) assms(1,2) by (simp add: hm_inv_def keys_of_def)
  have sz: "size_m s' = length (entries s')"
    using f(1) assms(1) by (simp add: hm_inv_def s'_def)
  show "hm_inv hasher s'"
    unfolding hm_inv_def using pl' d sz assms(1,3) by (simp add: hm_inv_def s'_def)
qed

lemma Insert_inv:
  assumes "hm_inv hasher s" and "size_m s < 2 ^ 48"
  shows "hm_inv hasher (snd (Insert hasher key val s))"
proof (cases "key \<in> keys_of s")
  case True
  then show ?thesis
    using assms by (simp add: Insert_present after_check_facts(1))
next
  case False
  let ?s1 = "after_check hasher s"
  have 1: "hm_inv hasher ?s1" and 2: "key \<notin> keys_of ?s1" and 3: "size_m ?s1 = size_m s"
    using assms False by (simp_all add: after_check_facts after_check_keys)
  have 4: "size_m ?s1 + 1 < 2 ^ 64" using assms(2) 3 by simp
  from hm_inv_push(1) [OF 1 2 4, of val] show ?thesis
    using assms False 3 by (simp add: Insert_absent)
qed

lemma Insert_result:
  assumes "hm_inv hasher s" and "size_m s < 2 ^ 48"
  shows "fst (Insert hasher key val s) \<longleftrightarrow> key \<notin> keys_of s"
  using assms by (cases "key \<in> keys_of s") (simp_all add: Insert_present Insert_absent)

lemma Insert_entries:
  assumes "hm_inv hasher s" and "size_m s < 2 ^ 48"
  shows "mset (entries (snd (Insert hasher key val s))) =
           (if key \<in> keys_of s then mset (entries s) else add_mset (key, val) (mset (entries s)))"
proof (cases "key \<in> keys_of s")
  case True
  then show ?thesis
    using assms by (simp add: Insert_present after_check_facts(2))
next
  case False
  let ?s1 = "after_check hasher s"
  have 1: "hm_inv hasher ?s1" and 2: "key \<notin> keys_of ?s1" and 3: "size_m ?s1 = size_m s"
    using assms False by (simp_all add: after_check_facts after_check_keys)
  have 4: "size_m ?s1 + 1 < 2 ^ 64" using assms(2) 3 by simp
  from hm_inv_push(2) [OF 1 2 4, of val] show ?thesis
    using assms False 3 by (simp add: Insert_absent after_check_facts(2))
qed

lemma Insert_size:
  assumes "hm_inv hasher s" and "size_m s < 2 ^ 48"
  shows "size_m (snd (Insert hasher key val s)) =
           (if key \<in> keys_of s then size_m s else size_m s + 1)"
  using assms
  by (cases "key \<in> keys_of s") (simp_all add: Insert_present Insert_absent after_check_facts(3))

lemma Insert_capacity:
  assumes "hm_inv hasher s" and "size_m s < 2 ^ 48"
  shows "capacity_m (snd (Insert hasher key val s)) =
           (if load_check s then 4 * capacity_m s else capacity_m s)"
  using assms
  by (cases "key \<in> keys_of s") (simp_all add: Insert_present Insert_absent after_check_facts(4))


section \<open>Erase\<close>

lemma Erase_absent:
  assumes "hm_inv hasher s" and "key \<notin> keys_of s"
  shows "Erase hasher key s = (False, s)"
  using hm_inv_FindInList [OF assms(1), of key] assms(2) by (simp add: Erase_def Let_def)

lemma Erase_present:
  assumes "hm_inv hasher s" and "key \<in> keys_of s"
  shows "Erase hasher key s =
           (True, s\<lparr>data_m := (data_m s)[hasher key mod capacity_m s :=
                      take (FindInList_loop key (data_m s ! (hasher key mod capacity_m s)))
                        (data_m s ! (hasher key mod capacity_m s)) @
                      drop (Suc (FindInList_loop key (data_m s ! (hasher key mod capacity_m s))))
                        (data_m s ! (hasher key mod capacity_m s))],
                    size_m := size_m s - 1\<rparr>)"
proof -
  have "key \<in> fst ` set (entries s)" using assms(2) by (simp add: keys_of_def)
  then have "entries s \<noteq> []" by auto
  then have "0 < size_m s" and "size_m s < 2 ^ 64" using assms(1) by (simp_all add: hm_inv_def)
  then have "(size_m s + 2 ^ 64 - 1) mod 2 ^ 64 = size_m s - 1"
    by (simp add: mod_if)
  then show ?thesis
    using hm_inv_FindInList [OF assms(1), of key] assms(2)
    by (simp add: Erase_def Let_def FindInList_def)
qed

lemma mset_remove_nth:
  "p < length b \<Longrightarrow> mset b = add_mset (b ! p) (mset (take p b @ drop (Suc p) b))"
  using id_take_nth_drop [of p b] by (metis mset.simps(2) mset_append union_mset_add_mset_right)

lemma hm_inv_remove:
  assumes "hm_inv hasher s" and "key \<in> keys_of s"
  defines "data_id \<equiv> hasher key mod capacity_m s"
  defines "it \<equiv> FindInList_loop key (data_m s ! data_id)"
  defines "s' \<equiv> s\<lparr>data_m := (data_m s)[data_id :=
                     take it (data_m s ! data_id) @ drop (Suc it) (data_m s ! data_id)],
                   size_m := size_m s - 1\<rparr>"
  shows "hm_inv hasher s'"
    and "mset (entries s) = add_mset (data_m s ! data_id ! it) (mset (entries s'))"
    and "key \<notin> keys_of s'"
proof -
  let ?b = "data_m s ! data_id"
  have lt: "data_id < length (data_m s)"
    unfolding data_id_def by (rule hm_inv_bucket_lt [OF assms(1)])
  note f = hm_inv_found_entry [OF assms(1,2), folded data_id_def, folded it_def]
  have "mset (concat ((data_m s)[data_id := take it ?b @ drop (Suc it) ?b])) + mset ?b =
        mset (concat (data_m s)) + mset (take it ?b @ drop (Suc it) ?b)"
    using lt by (rule mset_concat_update)
  then have "add_mset (?b ! it) (mset (entries s')) + mset (take it ?b @ drop (Suc it) ?b) =
        mset (entries s) + mset (take it ?b @ drop (Suc it) ?b)"
    unfolding mset_remove_nth [OF f(1)] by (simp add: entries_def s'_def)
  then show m: "mset (entries s) = add_mset (?b ! it) (mset (entries s'))"
    by simp
  then have m': "mset (entries s) = mset ((?b ! it) # entries s')" by simp
  note g = mset_eq_facts [OF m']
  have d: "distinct (map fst ((?b ! it) # entries s'))"
    using g(3) assms(1) by (simp add: hm_inv_def)
  then show "key \<notin> keys_of s'"
    using f(2) by (simp add: keys_of_def)
  have pl: "placed hasher (capacity_m s) (data_m s)"
    using assms(1) by (simp add: hm_inv_def)
  have "\<forall>e\<in>set (take it ?b @ drop (Suc it) ?b). hasher (fst e) mod capacity_m s = data_id"
    using pl lt by (auto simp: placed_def dest: in_set_takeD in_set_dropD)
  with pl have "placed hasher (capacity_m s)
                  ((data_m s)[data_id := take it ?b @ drop (Suc it) ?b])"
    by (rule placed_update)
  then have pl': "placed hasher (capacity_m s') (data_m s')" by (simp add: s'_def)
  have "size_m s = Suc (length (entries s'))"
    using g(1) assms(1) by (simp add: hm_inv_def)
  moreover have "size_m s' = size_m s - 1" by (simp add: s'_def)
  ultimately have sz: "size_m s' = length (entries s')" and sz': "size_m s' < 2 ^ 64"
    using assms(1) by (simp_all add: hm_inv_def)
  have "capacity_m s' = capacity_m s" and "length (data_m s') = length (data_m s)"
    by (simp_all add: s'_def)
  then show "hm_inv hasher s'"
    unfolding hm_inv_def using pl' d sz sz' assms(1) by (simp add: hm_inv_def)
qed

lemma Erase_inv:
  assumes "hm_inv hasher s"
  shows "hm_inv hasher (snd (Erase hasher key s))"
  using assms hm_inv_remove(1) [OF assms, of key]
  by (cases "key \<in> keys_of s") (simp_all add: Erase_present Erase_absent)

lemma Erase_result:
  assumes "hm_inv hasher s"
  shows "fst (Erase hasher key s) \<longleftrightarrow> key \<in> keys_of s"
  using assms by (cases "key \<in> keys_of s") (simp_all add: Erase_present Erase_absent)

lemma Erase_gone:
  assumes "hm_inv hasher s"
  shows "key \<notin> keys_of (snd (Erase hasher key s))"
  using assms hm_inv_remove(3) [OF assms, of key]
  by (cases "key \<in> keys_of s") (simp_all add: Erase_present Erase_absent)

lemma Erase_size:
  assumes "hm_inv hasher s"
  shows "size_m (snd (Erase hasher key s)) = (if key \<in> keys_of s then size_m s - 1 else size_m s)"
    and "key \<in> keys_of s \<Longrightarrow> 0 < size_m s"
proof -
  show "size_m (snd (Erase hasher key s)) = (if key \<in> keys_of s then size_m s - 1 else size_m s)"
    using assms by (cases "key \<in> keys_of s") (simp_all add: Erase_present Erase_absent)
  assume "key \<in> keys_of s"
  then have "entries s \<noteq> []" by (auto simp: keys_of_def)
  then show "0 < size_m s" using assms by (simp add: hm_inv_def)
qed

lemma Erase_others:
  assumes "hm_inv hasher s" and "k \<noteq> key"
  shows "(k, v) \<in> set (entries (snd (Erase hasher key s))) \<longleftrightarrow> (k, v) \<in> set (entries s)"
proof (cases "key \<in> keys_of s")
  case False
  then show ?thesis using assms by (simp add: Erase_absent)
next
  case True
  let ?i = "hasher key mod capacity_m s"
  let ?e = "data_m s ! ?i ! FindInList_loop key (data_m s ! ?i)"
  note f = hm_inv_found_entry [OF assms(1) True]
  from hm_inv_remove(2) [OF assms(1) True]
  have "set (entries s) = insert ?e (set (entries (snd (Erase hasher key s))))"
    using assms(1) True by (simp add: Erase_present) (metis set_mset_add_mset_insert set_mset_mset)
  moreover have "(k, v) \<noteq> ?e" using f(2) assms(2) by (metis fst_conv)
  ultimately show ?thesis by auto
qed

lemma Erase_frame:
  "capacity_m (snd (Erase hasher key s)) = capacity_m s"
  "length (data_m (snd (Erase hasher key s))) = length (data_m s)"
  by (simp_all add: Erase_def Let_def)

section \<open>Construction and Clear\<close>

lemma entries_replicate [simp]: "concat (replicate n []) = []"
  by (induction n) auto

lemma hm_inv_new: "hm_inv hasher ConcurrentHashMap"
  by (simp add: hm_inv_def ConcurrentHashMap_def kMutexesCount_def entries_def)

lemma hm_inv_Clear: "hm_inv hasher (Clear s)"
  by (simp add: hm_inv_def Clear_def kMutexesCount_def entries_def)


section \<open>The invariant along a sequence of calls\<close>

lemma run_append: "run hasher dflt (cs @ ds) s = run hasher dflt ds (run hasher dflt cs s)"
  by (induction cs arbitrary: s) auto

lemma exec_inv:
  assumes "hm_inv hasher s" and "size_m s < 2 ^ 48"
  shows "hm_inv hasher (snd (exec hasher dflt c s))"
    and "size_m (snd (exec hasher dflt c s)) \<le> size_m s + 1"
proof -
  show "hm_inv hasher (snd (exec hasher dflt c s))"
    using assms by (cases c) (simp_all add: Insert_inv Erase_inv hm_inv_Clear)
  show "size_m (snd (exec hasher dflt c s)) \<le> size_m s + 1"
    using assms by (cases c) (auto simp: Insert_size Erase_size(1) Clear_def)
qed

lemma run_inv:
  assumes "hm_inv hasher s" and "size_m s + length cs \<le> 2 ^ 48"
  shows "hm_inv hasher (run hasher dflt cs s) \<and> size_m (run hasher dflt cs s) \<le> size_m s + length cs"
  using assms
proof (induction cs arbitrary: s)
  case Nil
  then show ?case by simp
next
  case (Cons c cs)
  from Cons.prems have b: "size_m s < 2 ^ 48" by simp
  note e = exec_inv [OF Cons.prems(1) b, of dflt c]
  have "size_m (snd (exec hasher dflt c s)) + length cs \<le> 2 ^ 48"
    using e(2) Cons.prems(2) by simp
  from Cons.IH [OF e(1) this] e(2) show ?case by simp
qed

lemma run_fresh_inv:
  assumes "length cs \<le> 2 ^ 48"
  shows "hm_inv hasher (run hasher dflt cs ConcurrentHashMap)"
    and "size_m (run hasher dflt cs (ConcurrentHashMap :: ('k, 'v) hashmap)) \<le> length cs"
  using run_inv [OF hm_inv_new, of cs hasher dflt] assms
  by (simp_all add: ConcurrentHashMap_def)


lemma outcomes_append:
  "outcomes hasher dflt (cs @ ds) s =
     outcomes hasher dflt cs s @ outcomes hasher dflt ds (run hasher dflt cs s)"
  by (induction cs arbitrary: s) auto

lemma length_outcomes [simp]: "length (outcomes hasher dflt cs s) = length cs"
  by (induction cs arbitrary: s) auto

lemma exec_keeps_entry:
  assumes "hm_inv hasher s" and "size_m s < 2 ^ 48" and "(key, v) \<in> set (entries s)"
    and "c \<noteq> CallErase key" and "c \<noteq> CallClear"
  shows "(key, v) \<in> set (entries (snd (exec hasher dflt c s)))"
proof (cases c)
  case (CallInsert k w)
  have "(key, v) \<in># mset (entries (snd (Insert hasher k w s)))"
    using assms(3) unfolding Insert_entries [OF assms(1,2)] by simp
  then show ?thesis using CallInsert by simp
next
  case (CallErase k)
  then have "key \<noteq> k" using assms(4) by simp
  then show ?thesis using CallErase assms(1,3) by (simp add: Erase_others)
qed (use assms in simp_all)

lemma run_keeps_entry:
  assumes "hm_inv hasher s" and "size_m s + length cs \<le> 2 ^ 48" and "(key, v) \<in> set (entries s)"
    and "CallErase key \<notin> set cs" and "CallClear \<notin> set cs"
  shows "(key, v) \<in> set (entries (run hasher dflt cs s))"
  using assms
proof (induction cs arbitrary: s)
  case Nil
  then show ?case by simp
next
  case (Cons c cs)
  from Cons.prems have b: "size_m s < 2 ^ 48" by simp
  note e = exec_inv [OF Cons.prems(1) b, of dflt c]
  have 1: "size_m (snd (exec hasher dflt c s)) + length cs \<le> 2 ^ 48"
    using e(2) Cons.prems(2) by simp
  have 2: "(key, v) \<in> set (entries (snd (exec hasher dflt c s)))"
    using Cons.prems by (intro exec_keeps_entry [OF Cons.prems(1) b]) auto
  from Cons.IH [OF e(1) 1 2] Cons.prems(4,5) show ?case by simp
qed

lemma Find_cong:
  assumes "hm_inv hasher s" and "hm_inv hasher s'" and "set (entries s) = set (entries s')"
  shows "Find hasher dflt key s = Find hasher dflt key s'"
proof (cases "key \<in> keys_of s")
  case True
  then obtain v where v: "(key, v) \<in> set (entries s)" by (auto simp: keys_of_def)
  then have "(key, v) \<in> set (entries s')" using assms(3) by simp
  with v assms(1,2) show ?thesis by (simp add: Find_present)
next
  case False
  then have "key \<notin> keys_of s'" using assms(3) by (simp add: keys_of_def)
  with False assms(1,2) show ?thesis by (simp add: Find_absent)
qed

section \<open>Counting\<close>

lemma successes_Cons:
  "successes kind (c # cs) (r # rs) =
     (if kind c \<and> r = RetBool True then 1 else 0) + successes kind cs rs"
  by (simp add: successes_def)

lemma successes_Nil [simp]: "successes kind [] rs = 0"
  by (simp add: successes_def)

lemma run_size_count:
  assumes "hm_inv hasher s" and "size_m s + length cs \<le> 2 ^ 48" and "CallClear \<notin> set cs"
  shows "size_m (run hasher dflt cs s) + successes is_erase cs (outcomes hasher dflt cs s) =
           size_m s + successes is_insert cs (outcomes hasher dflt cs s)"
  using assms
proof (induction cs arbitrary: s)
  case Nil
  then show ?case by simp
next
  case (Cons c cs)
  from Cons.prems have b: "size_m s < 2 ^ 48" by simp
  note e = exec_inv [OF Cons.prems(1) b, of dflt c]
  have 1: "size_m (snd (exec hasher dflt c s)) + length cs \<le> 2 ^ 48"
    using e(2) Cons.prems(2) by simp
  have 2: "CallClear \<notin> set cs" using Cons.prems(3) by simp
  note ih = Cons.IH [OF e(1) 1 2]
  have step: "size_m (snd (exec hasher dflt c s)) +
                (if is_erase c \<and> fst (exec hasher dflt c s) = RetBool True then 1 else 0) =
              size_m s + (if is_insert c \<and> fst (exec hasher dflt c s) = RetBool True then 1 else 0)"
  proof (cases c)
    case (CallInsert k w)
    then show ?thesis
      using Insert_size [OF Cons.prems(1) b, of k w] Insert_result [OF Cons.prems(1) b, of k w]
      by simp
  next
    case (CallErase k)
    then show ?thesis
      using Erase_size [OF Cons.prems(1), of k] Erase_result [OF Cons.prems(1), of k]
      by auto
  next
    case CallClear
    then show ?thesis using Cons.prems(3) by simp
  qed simp_all
  show ?case
    using ih step by (simp add: successes_Cons)
qed

section \<open>Inserting distinct keys\<close>

lemma inserts_distinct:
  assumes "hm_inv hasher s" and "size_m s + length kvs \<le> 2 ^ 48"
    and "distinct (map fst kvs)" and "fst ` set kvs \<inter> keys_of s = {}"
  defines "cs \<equiv> map (\<lambda>(k, v). CallInsert k v) kvs"
  shows "hm_inv hasher (run hasher dflt cs s)"
    and "mset (entries (run hasher dflt cs s)) = mset (entries s) + mset kvs"
    and "size_m (run hasher dflt cs s) = size_m s + length kvs"
    and "outcomes hasher dflt cs s = replicate (length kvs) (RetBool True)"
    and "size_m s + length kvs \<le> 57 \<Longrightarrow> capacity_m s = 63 \<Longrightarrow> capacity_m (run hasher dflt cs s) = 63"
proof -
  have "hm_inv hasher (run hasher dflt cs s) \<and>
        mset (entries (run hasher dflt cs s)) = mset (entries s) + mset kvs \<and>
        size_m (run hasher dflt cs s) = size_m s + length kvs \<and>
        outcomes hasher dflt cs s = replicate (length kvs) (RetBool True) \<and>
        (size_m s + length kvs \<le> 57 \<longrightarrow> capacity_m s = 63 \<longrightarrow> capacity_m (run hasher dflt cs s) = 63)"
    using assms(1-4) unfolding cs_def
  proof (induction kvs arbitrary: s)
    case Nil
    then show ?case by simp
  next
    case (Cons kv kvs)
    obtain k v where kv: "kv = (k, v)" by (cases kv)
    let ?s = "snd (Insert hasher k v s)"
    from Cons.prems have b: "size_m s < 2 ^ 48" by simp
    have nk: "k \<notin> keys_of s" using Cons.prems(4) kv by auto
    have 1: "hm_inv hasher ?s" using Cons.prems(1) b by (rule Insert_inv)
    have m: "mset (entries ?s) = add_mset (k, v) (mset (entries s))"
      using Insert_entries [OF Cons.prems(1) b, of k v] nk by simp
    have sz: "size_m ?s = size_m s + 1"
      using Insert_size [OF Cons.prems(1) b, of k v] nk by simp
    have r: "fst (Insert hasher k v s)"
      using Insert_result [OF Cons.prems(1) b, of k v] nk by simp
    have 2: "size_m ?s + length kvs \<le> 2 ^ 48" using sz Cons.prems(2) by simp
    have 3: "distinct (map fst kvs)" using Cons.prems(3) by simp
    have "keys_of ?s = insert k (keys_of s)"
      using mset_eq_setD [of "entries ?s" "(k, v) # entries s"] m by (simp add: keys_of_def)
    then have 4: "fst ` set kvs \<inter> keys_of ?s = {}"
      using Cons.prems(3,4) kv by auto
    note ih = Cons.IH [OF 1 2 3 4]
    have cap: "size_m s + length (kv # kvs) \<le> 57 \<Longrightarrow> capacity_m s = 63 \<Longrightarrow> capacity_m ?s = 63"
      using Insert_capacity [OF Cons.prems(1) b, of k v] by (simp add: load_check_def)
    show ?case
      using ih m sz r cap by (simp add: kv)
  qed
  then show "hm_inv hasher (run hasher dflt cs s)"
    and "mset (entries (run hasher dflt cs s)) = mset (entries s) + mset kvs"
    and "size_m (run hasher dflt cs s) = size_m s + length kvs"
    and "outcomes hasher dflt cs s = replicate (length kvs) (RetBool True)"
    and "size_m s + length kvs \<le> 57 \<Longrightarrow> capacity_m s = 63 \<Longrightarrow> capacity_m (run hasher dflt cs s) = 63"
    by simp_all
qed


section \<open>The loaded example\<close>

lemma loaded_facts:
  shows "hm_inv id loaded"
    and "mset (entries loaded) = mset (map (\<lambda>i. (i, i + 100)) [0..<57])"
    and "size_m loaded = 57"
    and "capacity_m loaded = 63"
proof -
  let ?kvs = "map (\<lambda>i. (i, i + 100)) [0..<57] :: (nat \<times> nat) list"
  let ?new = "ConcurrentHashMap :: (nat, nat) hashmap"
  have cs: "map (\<lambda>(k, v). CallInsert k v) ?kvs = map (\<lambda>i. CallInsert i (i + 100)) [0..<57]"
    by simp
  have e: "entries ?new = []" and z: "size_m ?new = 0" and c: "capacity_m ?new = 63"
    by (simp_all add: entries_def ConcurrentHashMap_def kMutexesCount_def)
  have 1: "size_m ?new + length ?kvs \<le> 2 ^ 48" by (simp add: z)
  have 2: "distinct (map fst ?kvs)" by (simp add: comp_def)
  have 3: "fst ` set ?kvs \<inter> keys_of ?new = {}" by (simp add: keys_of_def e)
  note f = inserts_distinct [OF hm_inv_new 1 2 3, where dflt = 0 and hasher = id, unfolded cs, folded loaded_def]
  show "hm_inv id loaded" by (rule f(1))
  show "mset (entries loaded) = mset ?kvs" using f(2) by (simp add: e)
  show "size_m loaded = 57" using f(3) by (simp add: z)
  show "capacity_m loaded = 63" using f(5) by (simp add: z c)
qed

lemma loaded_keys: "keys_of loaded = {0..<57}"
proof -
  have "set (entries loaded) = set (map (\<lambda>i. (i, i + 100)) [0..<57])"
    using loaded_facts(2) by (rule mset_eq_setD)
  then show ?thesis by (simp add: keys_of_def image_image)
qed

lemma loaded_load_check: "load_check loaded"
  by (simp add: load_check_def loaded_facts)


section \<open>The claims\<close>

text \<open>
  C5. After \<^verbatim>\<open>Clear\<close>, from any state: \<^verbatim>\<open>Size\<close> is 0, \<^verbatim>\<open>Find\<close> of every key returns
  \<open>(false, V{})\<close>, the storage array is 63 empty buckets, the capacity is back at its initial
  value 63, and \<^verbatim>\<open>Insert\<close> of any key returns \<^verbatim>\<open>true\<close>.
\<close>

theorem Clear_resets:
  "Size (Clear s) = 0 \<and>
   Find hasher dflt key (Clear s) = (False, dflt) \<and>
   data_m (Clear s) = replicate 63 [] \<and>
   length (data_m (Clear s)) = kMutexesCount \<and>
   capacity_m (Clear s) = 63 \<and>
   capacity_m (Clear s) = capacity_m (ConcurrentHashMap :: ('k, 'v) hashmap) \<and>
   fst (Insert hasher key val (Clear s)) = True"
proof -
  have inv: "hm_inv hasher (Clear s)" by (rule hm_inv_Clear)
  have e: "entries (Clear s) = []" by (simp add: entries_def Clear_def)
  then have k: "key \<notin> keys_of (Clear s)" by (simp add: keys_of_def)
  have z: "size_m (Clear s) < 2 ^ 48" by (simp add: Clear_def)
  have "Find hasher dflt key (Clear s) = (False, dflt)"
    using inv k by (rule Find_absent)
  moreover have "fst (Insert hasher key val (Clear s)) = True"
    using Insert_result [OF inv z, of key val] k by simp
  ultimately show ?thesis
    by (simp add: Size_def Clear_def kMutexesCount_def ConcurrentHashMap_def)
qed

text \<open>
  C10. \<^verbatim>\<open>Erase\<close>, \<^verbatim>\<open>Find\<close>, \<^verbatim>\<open>At\<close> and \<^verbatim>\<open>Size\<close> leave the capacity and the length of the
  storage array as they are, whatever the load; in a consistent container a call that
  raises the capacity is an \<^verbatim>\<open>Insert\<close> made while the load test holds.
\<close>

theorem only_Insert_grows:
  "capacity_m (snd (Erase hasher key s)) = capacity_m s \<and>
   length (data_m (snd (Erase hasher key s))) = length (data_m s) \<and>
   snd (exec hasher dflt (CallErase key) s) = snd (Erase hasher key s) \<and>
   snd (exec hasher dflt (CallFind key) s) = s \<and>
   snd (exec hasher dflt (CallAt key) s) = s \<and>
   snd (exec hasher dflt CallSize s) = s \<and>
   (hm_inv hasher s \<and> size_m s < 2 ^ 48 \<and> capacity_m s < capacity_m (snd (exec hasher dflt c s))
      \<longrightarrow> is_insert c \<and> load_check s)"
proof -
  have "is_insert c \<and> load_check s"
    if inv: "hm_inv hasher s" and b: "size_m s < 2 ^ 48"
      and g: "capacity_m s < capacity_m (snd (exec hasher dflt c s))"
  proof (cases c)
    case (CallInsert k v)
    then show ?thesis
      using g Insert_capacity [OF inv b, of k v] by (simp split: if_splits)
  next
    case (CallErase k)
    then show ?thesis using g by (simp add: Erase_frame)
  next
    case CallClear
    have "kMutexesCount \<le> capacity_m s"
      using inv by (auto simp: hm_inv_def dest: dvd_imp_le)
    then show ?thesis using g CallClear by (simp add: Clear_def)
  qed (use g in simp_all)
  then show ?thesis by (simp add: Erase_frame)
qed

theorem only_Insert_grows_witness:
  "load_check loaded \<and> hm_inv id loaded \<and> size_m loaded < 2 ^ 48 \<and>
   capacity_m (snd (Erase id 3 loaded)) = 63 \<and>
   length (data_m (snd (Erase id 3 loaded))) = 63 \<and>
   snd (exec id 0 (CallFind 3) loaded) = loaded \<and>
   capacity_m loaded < capacity_m (snd (exec id 0 (CallInsert 3 0) loaded)) \<and>
   is_insert (CallInsert 3 (0::nat) :: (nat, nat) call)"
proof -
  have l: "length (data_m loaded) = 63"
    using loaded_facts(1,4) by (simp add: hm_inv_def)
  have c: "capacity_m (snd (exec id 0 (CallInsert 3 0) loaded)) = 252"
    using Insert_capacity [OF loaded_facts(1), of 3 0] loaded_load_check
    by (simp add: loaded_facts)
  show ?thesis
    using only_Insert_grows [of id 3 loaded 0 "CallInsert 3 0"] l c
    by (simp add: loaded_facts loaded_load_check)
qed

text \<open>
  C6. In a consistent container \<^verbatim>\<open>At\<close> throws \<^verbatim>\<open>std::out_of_range\<close> exactly when the key
  is absent; for a present key it returns the stored value, the second component of what
  \<^verbatim>\<open>Find\<close> returns. \<^verbatim>\<open>At\<close> leaves the container as it is, and no other call yields an
  error.
\<close>

theorem At_fails_iff_absent:
  assumes "hm_inv hasher s"
  shows "(At hasher key s = Inl out_of_range \<longleftrightarrow> key \<notin> keys_of s) \<and>
         (key \<in> keys_of s \<longrightarrow>
            At hasher key s = Inr (snd (Find hasher dflt key s)) \<and>
            fst (Find hasher dflt key s) \<and>
            (key, snd (Find hasher dflt key s)) \<in> set (entries s)) \<and>
         snd (exec hasher dflt (CallAt key) s) = s \<and>
         (fst (exec hasher dflt c s) = RetAt (Inl e) \<longrightarrow> (\<exists>k. c = CallAt k))"
proof -
  have 1: "At hasher key s = Inl out_of_range \<longleftrightarrow> key \<notin> keys_of s"
  proof (cases "key \<in> keys_of s")
    case True
    then obtain v where "(key, v) \<in> set (entries s)" by (auto simp: keys_of_def)
    with assms True show ?thesis by (simp add: At_present)
  next
    case False
    with assms show ?thesis by (simp add: At_absent)
  qed
  have 2: "At hasher key s = Inr (snd (Find hasher dflt key s)) \<and>
           fst (Find hasher dflt key s) \<and>
           (key, snd (Find hasher dflt key s)) \<in> set (entries s)" if "key \<in> keys_of s"
  proof -
    from that obtain v where "(key, v) \<in> set (entries s)" by (auto simp: keys_of_def)
    with assms show ?thesis by (simp add: At_present Find_present)
  qed
  have 3: "\<exists>k. c = CallAt k" if "fst (exec hasher dflt c s) = RetAt (Inl e)"
    using that by (cases c) simp_all
  show ?thesis using 1 2 3 by simp
qed

theorem At_fails_iff_absent_witness:
  "hm_inv id loaded \<and> At id 3 loaded = Inr 103 \<and> Find id 0 3 loaded = (True, 103) \<and>
   At id 60 loaded = Inl out_of_range \<and> snd (exec id 0 (CallAt 3) loaded) = loaded"
proof -
  have "(3, 103) \<in> set (entries loaded)"
    using mset_eq_setD [OF loaded_facts(2)] by simp
  then have f: "Find id 0 3 loaded = (True, 103)"
    using loaded_facts(1) by (simp add: Find_present)
  show ?thesis
    using At_fails_iff_absent [OF loaded_facts(1), of 3 0]
      At_fails_iff_absent [OF loaded_facts(1), of 60 0] f
    by (simp add: loaded_facts(1) loaded_keys)
qed


text \<open>
  C7. In a consistent container \<^verbatim>\<open>Erase\<close> of a present key returns \<^verbatim>\<open>true\<close> and takes the
  entry with that key out of its chain, the entries before and after it staying in their
  order and every other bucket staying as it is; \<^verbatim>\<open>Erase\<close> of an absent key returns
  \<^verbatim>\<open>false\<close> and changes nothing; afterwards the key is absent.
\<close>

theorem Erase_removes_match:
  assumes "hm_inv hasher s"
  shows "(key \<in> keys_of s \<longrightarrow>
            fst (Erase hasher key s) \<and>
            (\<exists>xs v ys. data_m s ! (hasher key mod capacity_m s) = xs @ (key, v) # ys \<and>
               key \<notin> fst ` set xs \<and>
               data_m (snd (Erase hasher key s)) =
                 (data_m s)[hasher key mod capacity_m s := xs @ ys])) \<and>
         (key \<notin> keys_of s \<longrightarrow> Erase hasher key s = (False, s)) \<and>
         key \<notin> keys_of (snd (Erase hasher key s)) \<and>
         Find hasher dflt key (snd (Erase hasher key s)) = (False, dflt) \<and>
         hm_inv hasher (snd (Erase hasher key s))"
proof -
  let ?b = "data_m s ! (hasher key mod capacity_m s)"
  let ?p = "FindInList_loop key ?b"
  have 1: "fst (Erase hasher key s) \<and>
           (\<exists>xs v ys. ?b = xs @ (key, v) # ys \<and> key \<notin> fst ` set xs \<and>
              data_m (snd (Erase hasher key s)) =
                (data_m s)[hasher key mod capacity_m s := xs @ ys])" if k: "key \<in> keys_of s"
  proof -
    have ne: "?p \<noteq> length ?b"
      using hm_inv_FindInList [OF assms, of key] k by (simp add: FindInList_def)
    from FindInList_loop_split(1) [OF ne] obtain v where
      v: "?b = take ?p ?b @ (key, v) # drop (Suc ?p) ?b" ..
    have d: "data_m (snd (Erase hasher key s)) =
               (data_m s)[hasher key mod capacity_m s := take ?p ?b @ drop (Suc ?p) ?b]"
      using assms k by (simp add: Erase_present)
    have "fst (Erase hasher key s)" using assms k by (simp add: Erase_present)
    with v d FindInList_loop_split(2) [OF ne] show ?thesis by blast
  qed
  have 2: "key \<notin> keys_of (snd (Erase hasher key s))" using assms by (rule Erase_gone)
  have 3: "hm_inv hasher (snd (Erase hasher key s))" using assms by (rule Erase_inv)
  have 4: "Find hasher dflt key (snd (Erase hasher key s)) = (False, dflt)"
    using 3 2 by (rule Find_absent)
  show ?thesis using 1 2 3 4 assms by (simp add: Erase_absent)
qed

theorem Erase_removes_match_witness:
  "hm_inv id loaded \<and> 3 \<in> keys_of loaded \<and> fst (Erase id 3 loaded) \<and>
   3 \<notin> keys_of (snd (Erase id 3 loaded)) \<and>
   Find id 0 3 (snd (Erase id 3 loaded)) = (False, 0) \<and>
   60 \<notin> keys_of loaded \<and> Erase id 60 loaded = (False, loaded)"
  using Erase_removes_match [OF loaded_facts(1), of 3 0]
    Erase_removes_match [OF loaded_facts(1), of 60 0]
  by (simp add: loaded_facts(1) loaded_keys)

text \<open>
  C1. In a consistent container, after a successful \<^verbatim>\<open>Insert(key, v)\<close> and any further calls
  that neither erase that key nor clear the container, \<^verbatim>\<open>Find(key)\<close> returns \<open>(true, v)\<close>
  (with no further calls this is the round trip), and another \<^verbatim>\<open>Insert(key, w)\<close> returns
  \<^verbatim>\<open>false\<close> and leaves \<open>v\<close> stored. The container holds fewer than \<open>2 ^ 48\<close> entries
  throughout.
\<close>

theorem Insert_then_Find:
  assumes "hm_inv hasher s" and "size_m s + length cs + 2 \<le> 2 ^ 48"
    and "fst (Insert hasher key v s)"
    and "CallErase key \<notin> set cs" and "CallClear \<notin> set cs"
  shows "Find hasher dflt key (snd (Insert hasher key v s)) = (True, v) \<and>
         Find hasher dflt key (run hasher dflt cs (snd (Insert hasher key v s))) = (True, v) \<and>
         \<not> fst (Insert hasher key w (run hasher dflt cs (snd (Insert hasher key v s)))) \<and>
         Find hasher dflt key
           (snd (Insert hasher key w (run hasher dflt cs (snd (Insert hasher key v s))))) = (True, v)"
proof -
  let ?s1 = "snd (Insert hasher key v s)"
  let ?s2 = "run hasher dflt cs ?s1"
  let ?s3 = "snd (Insert hasher key w ?s2)"
  have b: "size_m s < 2 ^ 48" using assms(2) by simp
  have nk: "key \<notin> keys_of s" using Insert_result [OF assms(1) b, of key v] assms(3) by simp
  have i1: "hm_inv hasher ?s1" using assms(1) b by (rule Insert_inv)
  have "mset (entries ?s1) = add_mset (key, v) (mset (entries s))"
    using Insert_entries [OF assms(1) b, of key v] nk by simp
  then have "(key, v) \<in># mset (entries ?s1)" by simp
  then have e1: "(key, v) \<in> set (entries ?s1)" by simp
  have z1: "size_m ?s1 + length cs \<le> 2 ^ 48"
    using Insert_size [OF assms(1) b, of key v] assms(2) by (simp split: if_splits)
  have i2: "hm_inv hasher ?s2" and z2: "size_m ?s2 \<le> size_m ?s1 + length cs"
    using run_inv [OF i1 z1, of dflt] by simp_all
  have e2: "(key, v) \<in> set (entries ?s2)"
    using i1 z1 e1 assms(4,5) by (rule run_keeps_entry)
  then have k2: "key \<in> keys_of ?s2" by (force simp: keys_of_def)
  have b2: "size_m ?s2 < 2 ^ 48"
    using z2 Insert_size [OF assms(1) b, of key v] assms(2) by (simp split: if_splits)
  have i3: "hm_inv hasher ?s3" using i2 b2 by (rule Insert_inv)
  have "mset (entries ?s3) = mset (entries ?s2)"
    using Insert_entries [OF i2 b2, of key w] k2 by simp
  then have "set (entries ?s3) = set (entries ?s2)" by (rule mset_eq_setD)
  then have e3: "(key, v) \<in> set (entries ?s3)" using e2 by simp
  have "\<not> fst (Insert hasher key w ?s2)"
    using Insert_result [OF i2 b2, of key w] k2 by simp
  then show ?thesis
    using Find_present [OF i1 e1] Find_present [OF i2 e2] Find_present [OF i3 e3] by simp
qed

theorem Insert_then_Find_witness:
  "hm_inv id (ConcurrentHashMap :: (nat, nat) hashmap) \<and>
   fst (Insert id 5 50 (ConcurrentHashMap :: (nat, nat) hashmap)) \<and>
   Find id 0 5 (snd (Insert id 5 50 (ConcurrentHashMap :: (nat, nat) hashmap))) = (True, 50) \<and>
   Find id 0 5 (run id 0 [CallInsert 68 1, CallErase 68, CallInsert 5 7, CallFind 5]
     (snd (Insert id 5 50 (ConcurrentHashMap :: (nat, nat) hashmap)))) = (True, 50) \<and>
   \<not> fst (Insert id 5 9 (run id 0 [CallInsert 68 1, CallErase 68, CallInsert 5 7, CallFind 5]
     (snd (Insert id 5 50 (ConcurrentHashMap :: (nat, nat) hashmap)))))"
proof -
  let ?new = "ConcurrentHashMap :: (nat, nat) hashmap"
  let ?cs = "[CallInsert 68 1, CallErase 68, CallInsert 5 7, CallFind 5] :: (nat, nat) call list"
  have z: "size_m ?new = 0" and e: "keys_of ?new = {}"
    by (simp_all add: ConcurrentHashMap_def keys_of_def entries_def)
  have b: "size_m ?new < 2 ^ 48" by (simp add: z)
  have f: "fst (Insert id 5 50 ?new)"
    using Insert_result [OF hm_inv_new b, of id 5 50] by (simp add: e)
  have h2: "size_m ?new + length ?cs + 2 \<le> 2 ^ 48" by (simp add: z)
  have h4: "CallErase 5 \<notin> set ?cs" and h5: "CallClear \<notin> set ?cs" by simp_all
  from Insert_then_Find [OF hm_inv_new h2 f h4 h5, of 0 9] show ?thesis
    using f by (simp add: hm_inv_new)
qed


text \<open>
  C2. After any sequence of fewer than \<open>2 ^ 48\<close> calls on a new container the capacity is a
  multiple of the stripe count 63: it starts at 63, an \<^verbatim>\<open>Insert\<close> multiplies it by 4 when its
  load test holds and keeps it otherwise, \<^verbatim>\<open>Rehash\<close> multiplies it by 4, and \<^verbatim>\<open>Clear\<close> sets it
  back to 63. So the bucket index \<open>h mod capacity\<close> of any hash value \<open>h\<close> lies in the stripe
  \<open>h mod 63\<close> whose lock the call takes.
\<close>

theorem capacity_multiple_of_stripes:
  assumes "length cs < 2 ^ 48"
  shows "kMutexesCount = 63 \<and>
         capacity_m (ConcurrentHashMap :: ('k, 'v) hashmap) = kMutexesCount \<and>
         kMutexesCount dvd capacity_m (run hasher dflt cs (ConcurrentHashMap :: ('k, 'v) hashmap)) \<and>
         capacity_m (snd (Insert hasher key val (run hasher dflt cs ConcurrentHashMap))) =
           (if load_check (run hasher dflt cs (ConcurrentHashMap :: ('k, 'v) hashmap))
            then 4 * capacity_m (run hasher dflt cs (ConcurrentHashMap :: ('k, 'v) hashmap))
            else capacity_m (run hasher dflt cs (ConcurrentHashMap :: ('k, 'v) hashmap))) \<and>
         (load_check (run hasher dflt cs (ConcurrentHashMap :: ('k, 'v) hashmap)) \<longrightarrow>
            capacity_m (Rehash hasher (run hasher dflt cs (ConcurrentHashMap :: ('k, 'v) hashmap))) =
              4 * capacity_m (run hasher dflt cs (ConcurrentHashMap :: ('k, 'v) hashmap))) \<and>
         capacity_m (Clear (run hasher dflt cs (ConcurrentHashMap :: ('k, 'v) hashmap))) = kMutexesCount \<and>
         (h mod capacity_m (run hasher dflt cs (ConcurrentHashMap :: ('k, 'v) hashmap))) mod kMutexesCount
           = h mod kMutexesCount"
proof -
  let ?s = "run hasher dflt cs (ConcurrentHashMap :: ('k, 'v) hashmap)"
  have le: "length cs \<le> 2 ^ 48" using assms by simp
  have inv: "hm_inv hasher ?s" using le by (rule run_fresh_inv(1))
  have "size_m ?s \<le> length cs" using le by (rule run_fresh_inv(2))
  then have b: "size_m ?s < 2 ^ 48" using assms by simp
  have d: "kMutexesCount dvd capacity_m ?s" using inv by (simp add: hm_inv_def)
  have i: "capacity_m (snd (Insert hasher key val ?s)) =
             (if load_check ?s then 4 * capacity_m ?s else capacity_m ?s)"
    using inv b by (rule Insert_capacity)
  have r: "capacity_m (Rehash hasher ?s) = 4 * capacity_m ?s" if "load_check ?s"
    using Rehash_fields(1) [OF load_check_no_wrap [OF that b]] .
  have m: "(h mod capacity_m ?s) mod kMutexesCount = h mod kMutexesCount"
    using d by (rule mod_mod_cancel)
  show ?thesis
    using d i r m by (simp add: kMutexesCount_def ConcurrentHashMap_def Clear_def)
qed

theorem capacity_multiple_of_stripes_witness:
  "length (map (\<lambda>i. CallInsert i (i + 100)) [0..<57] :: (nat, nat) call list) < 2 ^ 48 \<and>
   load_check loaded \<and> capacity_m loaded = 63 \<and> kMutexesCount dvd capacity_m loaded \<and>
   capacity_m (snd (Insert id 1000 7 loaded)) = 252 \<and>
   capacity_m (Rehash id loaded) = 252 \<and>
   (1000 mod capacity_m loaded) mod kMutexesCount = 1000 mod kMutexesCount"
proof -
  have l: "length (map (\<lambda>i. CallInsert i (i + 100)) [0..<57] :: (nat, nat) call list) < 2 ^ 48"
    by simp
  from capacity_multiple_of_stripes [OF l, of id 0 1000 7 1000, folded loaded_def]
  show ?thesis using l by (simp add: loaded_load_check loaded_facts)
qed


text \<open>
  C3. On a new container (capacity 63), inserting 58 entries with distinct keys one after
  the other: every \<^verbatim>\<open>Insert\<close> returns \<^verbatim>\<open>true\<close>; after each of the first 57 the capacity is still
  63; the 58th, which finds 57 entries in 63 buckets, leaves capacity 252 and a storage array
  of 252 buckets; afterwards \<^verbatim>\<open>Find\<close> returns every one of the 58 keys with the value it
  was inserted with, each entry lying in bucket \<open>hash mod 252\<close>.
\<close>

theorem growth_at_58th_insert:
  assumes "distinct (map fst kvs)" and "length kvs = 58"
  shows "(\<forall>n \<le> 57. capacity_m (run hasher dflt (map (\<lambda>(k, v). CallInsert k v) (take n kvs))
                                  ConcurrentHashMap) = 63) \<and>
         capacity_m (run hasher dflt (map (\<lambda>(k, v). CallInsert k v) kvs) ConcurrentHashMap)
           = 63 * 4 \<and>
         length (data_m (run hasher dflt (map (\<lambda>(k, v). CallInsert k v) kvs) ConcurrentHashMap))
           = 252 \<and>
         outcomes hasher dflt (map (\<lambda>(k, v). CallInsert k v) kvs) ConcurrentHashMap
           = replicate 58 (RetBool True) \<and>
         Size (run hasher dflt (map (\<lambda>(k, v). CallInsert k v) kvs) ConcurrentHashMap) = 58 \<and>
         (\<forall>(k, v) \<in> set kvs.
            Find hasher dflt k (run hasher dflt (map (\<lambda>(k, v). CallInsert k v) kvs) ConcurrentHashMap)
              = (True, v)) \<and>
         placed hasher 252
           (data_m (run hasher dflt (map (\<lambda>(k, v). CallInsert k v) kvs) ConcurrentHashMap))"
proof -
  let ?new = "ConcurrentHashMap :: ('a, 'b) hashmap"
  let ?ins = "\<lambda>(k, v). CallInsert k v :: ('a, 'b) call"
  let ?run = "\<lambda>kvs. run hasher dflt (map ?ins kvs) ?new"
  have z: "size_m ?new = 0" and c: "capacity_m ?new = 63" and e: "entries ?new = []"
    by (simp_all add: ConcurrentHashMap_def kMutexesCount_def entries_def)
  have k0: "\<And>xs :: ('a \<times> 'b) list. fst ` set xs \<inter> keys_of ?new = {}"
    by (simp add: keys_of_def e)
  have small: "capacity_m (?run (take n kvs)) = 63" if "n \<le> 57" for n
  proof -
    have 1: "size_m ?new + length (take n kvs) \<le> 2 ^ 48" using that by (simp add: z)
    have 2: "distinct (map fst (take n kvs))"
      using assms(1) by (simp add: take_map [symmetric] distinct_take)
    have 3: "size_m ?new + length (take n kvs) \<le> 57" using that by (simp add: z)
    from inserts_distinct(5) [OF hm_inv_new 1 2 k0 3 c, where dflt = dflt and hasher = hasher] show ?thesis .
  qed
  let ?s57 = "?run (take 57 kvs)"
  have split: "kvs = take 57 kvs @ [kvs ! 57]"
    using take_Suc_conv_app_nth [of 57 kvs] assms(2) by simp
  have b57: "size_m ?new + length (take 57 kvs) \<le> 2 ^ 48" by (simp add: z)
  have d57: "distinct (map fst (take 57 kvs))"
    using assms(1) by (simp add: take_map [symmetric] distinct_take)
  note f57 = inserts_distinct(1,3) [OF hm_inv_new b57 d57 k0, where dflt = dflt and hasher = hasher]
  have z57: "size_m ?s57 = 57" using f57(2) assms(2) by (simp add: z)
  have l57: "load_check ?s57" using small [of 57] z57 by (simp add: load_check_def)
  have b57': "size_m ?s57 < 2 ^ 48" using z57 by simp
  obtain k v where kv: "kvs ! 57 = (k, v)" by (cases "kvs ! 57")
  have "?run kvs = run hasher dflt [CallInsert k v] ?s57"
    by (subst split) (simp add: run_append kv)
  then have fin: "?run kvs = snd (Insert hasher k v ?s57)" by simp
  have cap: "capacity_m (?run kvs) = 252"
    unfolding fin using Insert_capacity [OF f57(1) b57', of k v] l57 small [of 57] by simp
  have b: "size_m ?new + length kvs \<le> 2 ^ 48" using assms(2) by (simp add: z)
  note f = inserts_distinct(1-4) [OF hm_inv_new b assms(1) k0, where dflt = dflt and hasher = hasher]
  have len: "length (data_m (?run kvs)) = 252" and pl: "placed hasher 252 (data_m (?run kvs))"
    using f(1) cap by (simp_all add: hm_inv_def)
  have sz: "Size (?run kvs) = 58" using f(3) assms(2) by (simp add: z Size_def)
  have out: "outcomes hasher dflt (map ?ins kvs) ?new = replicate 58 (RetBool True)"
    using f(4) assms(2) by simp
  have "set (entries (?run kvs)) = set kvs"
    using mset_eq_setD [of "entries (?run kvs)" kvs] f(2) by (simp add: e)
  then have find: "\<forall>(k, v) \<in> set kvs. Find hasher dflt k (?run kvs) = (True, v)"
    using f(1) by (auto simp: Find_present)
  show ?thesis
    using small cap len out sz find pl by simp
qed

theorem growth_at_58th_insert_witness:
  "distinct (map fst (map (\<lambda>i. (i, i + 100)) [0..<58] :: (nat \<times> nat) list)) \<and>
   length (map (\<lambda>i. (i, i + 100)) [0..<58] :: (nat \<times> nat) list) = 58 \<and>
   capacity_m (run id 0 (map (\<lambda>(k, v). CallInsert k v) (map (\<lambda>i. (i, i + 100)) [0..<58]))
     (ConcurrentHashMap :: (nat, nat) hashmap)) = 252 \<and>
   Size (run id 0 (map (\<lambda>(k, v). CallInsert k v) (map (\<lambda>i. (i, i + 100)) [0..<58]))
     (ConcurrentHashMap :: (nat, nat) hashmap)) = 58"
proof -
  let ?kvs = "map (\<lambda>i. (i, i + 100)) [0..<58] :: (nat \<times> nat) list"
  have d: "distinct (map fst ?kvs)" by (simp add: comp_def)
  have l: "length ?kvs = 58" by simp
  from growth_at_58th_insert [OF d l, where hasher = id and dflt = 0] show ?thesis
    using d l by simp
qed


text \<open>
  C4. After any sequence of fewer than \<open>2 ^ 48\<close> calls on a new container \<^verbatim>\<open>Size\<close> is the
  number of entries in the storage array; when the sequence has no \<^verbatim>\<open>Clear\<close> it is the number
  of \<^verbatim>\<open>Insert\<close> calls that returned \<^verbatim>\<open>true\<close> minus the number of \<^verbatim>\<open>Erase\<close> calls that returned
  \<^verbatim>\<open>true\<close>. A further \<^verbatim>\<open>Insert\<close> adds one to the counter exactly when it returns \<^verbatim>\<open>true\<close>, a
  further \<^verbatim>\<open>Erase\<close> takes one off exactly when it returns \<^verbatim>\<open>true\<close>, and \<^verbatim>\<open>Rehash\<close> keeps the
  counter and the entries.
\<close>

theorem Size_counts_entries:
  assumes "length cs < 2 ^ 48"
  shows "Size (run hasher dflt cs ConcurrentHashMap)
           = length (entries (run hasher dflt cs (ConcurrentHashMap :: ('k, 'v) hashmap))) \<and>
         (CallClear \<notin> set cs \<longrightarrow>
            successes is_erase cs (outcomes hasher dflt cs (ConcurrentHashMap :: ('k, 'v) hashmap))
              \<le> successes is_insert cs (outcomes hasher dflt cs (ConcurrentHashMap :: ('k, 'v) hashmap)) \<and>
            Size (run hasher dflt cs (ConcurrentHashMap :: ('k, 'v) hashmap)) =
              successes is_insert cs (outcomes hasher dflt cs (ConcurrentHashMap :: ('k, 'v) hashmap)) -
              successes is_erase cs (outcomes hasher dflt cs (ConcurrentHashMap :: ('k, 'v) hashmap))) \<and>
         Size (snd (Insert hasher key val (run hasher dflt cs ConcurrentHashMap))) =
           Size (run hasher dflt cs (ConcurrentHashMap :: ('k, 'v) hashmap)) +
           (if fst (Insert hasher key val (run hasher dflt cs ConcurrentHashMap)) then 1 else 0) \<and>
         Size (snd (Erase hasher key (run hasher dflt cs ConcurrentHashMap))) +
           (if fst (Erase hasher key (run hasher dflt cs ConcurrentHashMap)) then 1 else 0) =
           Size (run hasher dflt cs (ConcurrentHashMap :: ('k, 'v) hashmap)) \<and>
         (capacity_m (run hasher dflt cs (ConcurrentHashMap :: ('k, 'v) hashmap)) * 4 < 2 ^ 64 \<longrightarrow>
            Size (Rehash hasher (run hasher dflt cs ConcurrentHashMap)) =
              Size (run hasher dflt cs (ConcurrentHashMap :: ('k, 'v) hashmap)) \<and>
            mset (entries (Rehash hasher (run hasher dflt cs ConcurrentHashMap))) =
              mset (entries (run hasher dflt cs (ConcurrentHashMap :: ('k, 'v) hashmap))))"
proof -
  let ?new = "ConcurrentHashMap :: ('k, 'v) hashmap"
  let ?s = "run hasher dflt cs ?new"
  let ?rs = "outcomes hasher dflt cs ?new"
  have z: "size_m ?new = 0" by (simp add: ConcurrentHashMap_def)
  have le: "length cs \<le> 2 ^ 48" using assms by simp
  have inv: "hm_inv hasher ?s" using le by (rule run_fresh_inv(1))
  have "size_m ?s \<le> length cs" using le by (rule run_fresh_inv(2))
  then have b: "size_m ?s < 2 ^ 48" using assms by simp
  have 1: "Size ?s = length (entries ?s)" using inv by (simp add: Size_def hm_inv_def)
  have 2: "successes is_erase cs ?rs \<le> successes is_insert cs ?rs \<and>
           Size ?s = successes is_insert cs ?rs - successes is_erase cs ?rs"
    if "CallClear \<notin> set cs"
  proof -
    have "size_m ?new + length cs \<le> 2 ^ 48" using le by (simp add: z)
    from run_size_count [OF hm_inv_new this that, where dflt = dflt and hasher = hasher] show ?thesis
      by (simp add: z Size_def)
  qed
  have 3: "Size (snd (Insert hasher key val ?s)) =
             Size ?s + (if fst (Insert hasher key val ?s) then 1 else 0)"
    using Insert_size [OF inv b, of key val] Insert_result [OF inv b, of key val]
    by (simp add: Size_def)
  have 4: "Size (snd (Erase hasher key ?s)) + (if fst (Erase hasher key ?s) then 1 else 0) = Size ?s"
    using Erase_size [OF inv, of key] Erase_result [OF inv, of key]
    by (auto simp: Size_def)
  have 5: "Size (Rehash hasher ?s) = Size ?s \<and> mset (entries (Rehash hasher ?s)) = mset (entries ?s)"
    if nw: "capacity_m ?s * 4 < 2 ^ 64"
  proof -
    have pos: "0 < capacity_m ?s" using inv by (simp add: hm_inv_def)
    show ?thesis
      using Rehash_fields(2) [OF nw, of hasher] Rehash_entries [OF pos nw, of hasher]
      by (simp add: Size_def)
  qed
  show ?thesis
    using 1 2 3 4 5 by blast
qed

theorem Size_counts_entries_witness:
  "length [CallInsert 1 10, CallInsert 64 20, CallInsert 7 30 :: (nat, nat) call] < 2 ^ 48 \<and>
   CallClear \<notin> set [CallInsert 1 10, CallInsert 64 20, CallInsert 7 30 :: (nat, nat) call] \<and>
   successes is_insert [CallInsert 1 10, CallInsert 64 20, CallInsert 7 30 :: (nat, nat) call]
     (outcomes id 0 [CallInsert 1 10, CallInsert 64 20, CallInsert 7 30] ConcurrentHashMap) = 3 \<and>
   successes is_erase [CallInsert 1 10, CallInsert 64 20, CallInsert 7 30 :: (nat, nat) call]
     (outcomes id 0 [CallInsert 1 10, CallInsert 64 20, CallInsert 7 30] ConcurrentHashMap) = 0 \<and>
   Size (run id 0 [CallInsert 1 10, CallInsert 64 20, CallInsert 7 30 :: (nat, nat) call]
     ConcurrentHashMap) = 3 \<and>
   fst (Erase id 64 (run id 0 [CallInsert 1 10, CallInsert 64 20, CallInsert 7 30 :: (nat, nat) call]
     ConcurrentHashMap)) \<and>
   Size (snd (Erase id 64 (run id 0 [CallInsert 1 10, CallInsert 64 20,
     CallInsert 7 30 :: (nat, nat) call] ConcurrentHashMap))) = 2"
proof -
  let ?new = "ConcurrentHashMap :: (nat, nat) hashmap"
  let ?kvs = "[(1, 10), (64, 20), (7, 30)] :: (nat \<times> nat) list"
  let ?cs = "[CallInsert 1 10, CallInsert 64 20, CallInsert 7 30] :: (nat, nat) call list"
  let ?s = "run id 0 ?cs ?new"
  have cs: "map (\<lambda>(k, v). CallInsert k v) ?kvs = ?cs" by simp
  have z: "size_m ?new = 0" and e: "entries ?new = []"
    by (simp_all add: ConcurrentHashMap_def entries_def)
  have 1: "size_m ?new + length ?kvs \<le> 2 ^ 48" by (simp add: z)
  have 2: "distinct (map fst ?kvs)" by simp
  have 3: "fst ` set ?kvs \<inter> keys_of ?new = {}" by (simp add: keys_of_def e)
  note f = inserts_distinct(1,2,4) [OF hm_inv_new 1 2 3, where hasher = id and dflt = 0,
      unfolded cs]
  have out: "outcomes id 0 ?cs ?new = [RetBool True, RetBool True, RetBool True]"
    using f(3) by (simp add: numeral_3_eq_3)
  have n: "successes is_insert ?cs (outcomes id 0 ?cs ?new) = 3"
    and m: "successes is_erase ?cs (outcomes id 0 ?cs ?new) = 0"
    unfolding out by (simp_all add: successes_def)
  have "set (entries ?s) = set ?kvs"
    using mset_eq_setD [of "entries ?s" ?kvs] f(2) by (simp add: e)
  then have k: "64 \<in> keys_of ?s" by (simp add: keys_of_def)
  have er: "fst (Erase id 64 ?s)" using Erase_result [OF f(1), of 64] k by simp
  have l: "length ?cs < 2 ^ 48" and nc: "CallClear \<notin> set ?cs" by simp_all
  note t = Size_counts_entries [OF l, where hasher = id and dflt = 0 and key = 64]
  from t nc have "Size ?s = successes is_insert ?cs (outcomes id 0 ?cs ?new) -
      successes is_erase ?cs (outcomes id 0 ?cs ?new)" by blast
  then have sz: "Size ?s = 3" by (simp only: n m diff_zero)
  from t have "Size (snd (Erase id 64 ?s)) + (if fst (Erase id 64 ?s) then 1 else 0) = Size ?s"
    by blast
  then have sz': "Size (snd (Erase id 64 ?s)) = 2" using er sz by simp
  show ?thesis using l nc n m sz er sz' by blast
qed

text \<open>
  C8, as stated, fails: \<^verbatim>\<open>Insert\<close> makes its growth check before it looks the key up, so on
  a container holding the 57 keys \<open>0, \<dots>, 56\<close> in 63 buckets, \<^verbatim>\<open>Insert(3, 7)\<close> returns
  \<^verbatim>\<open>false\<close> and leaves a container of capacity 252.
\<close>

theorem Insert_present_counterexample:
  "hm_inv id loaded \<and> 3 \<in> keys_of loaded \<and> capacity_m loaded = 63 \<and>
   fst (Insert id 3 7 loaded) = False \<and>
   capacity_m (snd (Insert id 3 7 loaded)) = 252 \<and>
   snd (Insert id 3 7 loaded) \<noteq> loaded"
proof -
  have b: "size_m loaded < 2 ^ 48" by (simp add: loaded_facts)
  have k: "3 \<in> keys_of loaded" by (simp add: loaded_keys)
  have r: "fst (Insert id 3 7 loaded) = False"
    using Insert_result [OF loaded_facts(1) b, of 3 7] k by simp
  have c: "capacity_m (snd (Insert id 3 7 loaded)) = 252"
    using Insert_capacity [OF loaded_facts(1) b, of 3 7] loaded_load_check
    by (simp add: loaded_facts)
  have "snd (Insert id 3 7 loaded) \<noteq> loaded"
  proof
    assume "snd (Insert id 3 7 loaded) = loaded"
    then have "capacity_m (snd (Insert id 3 7 loaded)) = capacity_m loaded" by simp
    then show False using c by (simp add: loaded_facts)
  qed
  then show ?thesis using k r c by (simp add: loaded_facts)
qed

text \<open>
  C8, amended. In a consistent container holding fewer than \<open>2 ^ 48\<close> entries, \<^verbatim>\<open>Insert\<close> of a
  key that is present returns \<^verbatim>\<open>false\<close>. When the load test does not hold on entry the whole
  state (buckets, size, capacity) is left as it was. When it holds the call leaves the state
  that \<^verbatim>\<open>Rehash\<close> produces, of four times the capacity; the size, the entries and the
  result of \<^verbatim>\<open>Find\<close> for every key are as before.
\<close>

theorem Insert_present_keeps_content:
  assumes "hm_inv hasher s" and "size_m s < 2 ^ 48" and "key \<in> keys_of s"
  shows "fst (Insert hasher key val s) = False \<and>
         (\<not> load_check s \<longrightarrow> snd (Insert hasher key val s) = s) \<and>
         (load_check s \<longrightarrow> snd (Insert hasher key val s) = Rehash hasher s \<and>
            capacity_m (snd (Insert hasher key val s)) = 4 * capacity_m s) \<and>
         size_m (snd (Insert hasher key val s)) = size_m s \<and>
         mset (entries (snd (Insert hasher key val s))) = mset (entries s) \<and>
         Find hasher dflt k (snd (Insert hasher key val s)) = Find hasher dflt k s"
proof -
  let ?s' = "snd (Insert hasher key val s)"
  have eq: "Insert hasher key val s = (False, after_check hasher s)"
    using assms by (rule Insert_present)
  have 1: "fst (Insert hasher key val s) = False" by (simp add: eq)
  have 2: "?s' = s" if "\<not> load_check s" using that by (simp add: eq after_check_def)
  have 3: "?s' = Rehash hasher s \<and> capacity_m ?s' = 4 * capacity_m s" if "load_check s"
    using that Insert_capacity [OF assms(1,2), of key val] by (simp add: eq after_check_def)
  have 4: "size_m ?s' = size_m s"
    using Insert_size [OF assms(1,2), of key val] assms(3) by simp
  have 5: "mset (entries ?s') = mset (entries s)"
    using Insert_entries [OF assms(1,2), of key val] assms(3) by simp
  have "hm_inv hasher ?s'" using assms(1,2) by (rule Insert_inv)
  moreover have "set (entries ?s') = set (entries s)" using 5 by (rule mset_eq_setD)
  ultimately have 6: "Find hasher dflt k ?s' = Find hasher dflt k s"
    using assms(1) by (intro Find_cong)
  show ?thesis using 1 2 3 4 5 6 by blast
qed

theorem Insert_present_keeps_content_witness:
  "hm_inv id loaded \<and> size_m loaded < 2 ^ 48 \<and> 3 \<in> keys_of loaded \<and> load_check loaded \<and>
   fst (Insert id 3 7 loaded) = False \<and>
   snd (Insert id 3 7 loaded) = Rehash id loaded \<and>
   size_m (snd (Insert id 3 7 loaded)) = 57 \<and>
   Find id 0 3 (snd (Insert id 3 7 loaded)) = (True, 103)"
proof -
  have b: "size_m loaded < 2 ^ 48" by (simp add: loaded_facts)
  have k: "3 \<in> keys_of loaded" by (simp add: loaded_keys)
  have "(3, 103) \<in> set (entries loaded)"
    using mset_eq_setD [OF loaded_facts(2)] by simp
  then have f: "Find id 0 3 loaded = (True, 103)"
    using loaded_facts(1) by (simp add: Find_present)
  note t = Insert_present_keeps_content [OF loaded_facts(1) b k, of 7 0 3]
  from t have 1: "fst (Insert id 3 7 loaded) = False" by blast
  from t loaded_load_check have 2: "snd (Insert id 3 7 loaded) = Rehash id loaded" by blast
  from t have "size_m (snd (Insert id 3 7 loaded)) = size_m loaded" by blast
  then have 3: "size_m (snd (Insert id 3 7 loaded)) = 57" by (simp only: loaded_facts(3))
  from t have "Find id 0 3 (snd (Insert id 3 7 loaded)) = Find id 0 3 loaded" by blast
  then have 4: "Find id 0 3 (snd (Insert id 3 7 loaded)) = (True, 103)" by (simp only: f)
  show ?thesis using loaded_facts(1) b k loaded_load_check 1 2 3 4 by blast
qed

end
